theory Spec2Isabelle
  imports Main "HOL-Library.Sublist"
begin

section \<open>Text primitives of the host language\<close>

text \<open>
  The voice agent is written in Python. A Python \<open>str\<close> is a sequence of code points;
  it is modelled as a \<^typ>\<open>string\<close>, one \<^typ>\<open>char\<close> per code point, which covers the
  code points below 256. The character classes below are the ones \<open>str.isspace\<close>,
  \<open>str.isdigit\<close>, \<open>str.lower\<close> and the regular-expression classes \<open>\s\<close> and \<open>\w\<close>
  compute on that range.
\<close>

definition ord :: "char \<Rightarrow> nat" where
  "ord c = of_char c"

definition isspace :: "char \<Rightarrow> bool" where
  "isspace c = (let n = ord c in
     (9 \<le> n \<and> n \<le> 13) \<or> (28 \<le> n \<and> n \<le> 32) \<or> n = 133 \<or> n = 160)"

definition isdigit :: "char \<Rightarrow> bool" where
  "isdigit c = (let n = ord c in
     (48 \<le> n \<and> n \<le> 57) \<or> n = 178 \<or> n = 179 \<or> n = 185)"

definition isalnum :: "char \<Rightarrow> bool" where
  "isalnum c = (let n = ord c in
     (48 \<le> n \<and> n \<le> 57) \<or> (65 \<le> n \<and> n \<le> 90) \<or> (97 \<le> n \<and> n \<le> 122) \<or>
     n = 170 \<or> n = 178 \<or> n = 179 \<or> n = 181 \<or> n = 185 \<or> n = 186 \<or>
     (188 \<le> n \<and> n \<le> 190) \<or> (192 \<le> n \<and> n \<le> 214) \<or>
     (216 \<le> n \<and> n \<le> 246) \<or> (248 \<le> n \<and> n \<le> 255))"

definition lower_char :: "char \<Rightarrow> char" where
  "lower_char c = (let n = ord c in
     if (65 \<le> n \<and> n \<le> 90) \<or> (192 \<le> n \<and> n \<le> 214) \<or> (216 \<le> n \<and> n \<le> 222)
     then char_of (n + 32) else c)"

definition lower :: "string \<Rightarrow> string" where
  "lower s = map lower_char s"

text \<open>\<open>s.isdigit()\<close>: every character is a digit and there is at least one.\<close>

definition str_isdigit :: "string \<Rightarrow> bool" where
  "str_isdigit s = (s \<noteq> [] \<and> list_all isdigit s)"

text \<open>\<open>s.rstrip(chars)\<close>, \<open>s.lstrip()\<close> and \<open>s.strip()\<close>.\<close>

definition rstrip_chars :: "string \<Rightarrow> string \<Rightarrow> string" where
  "rstrip_chars chars s = rev (dropWhile (\<lambda>c. c \<in> set chars) (rev s))"

definition strip :: "string \<Rightarrow> string" where
  "strip s = dropWhile isspace (rev (dropWhile isspace (rev s)))"

text \<open>\<open>s.split()\<close>: the maximal runs of non-whitespace characters, in order.\<close>

fun split_acc :: "string \<Rightarrow> string \<Rightarrow> string list" where
  "split_acc cur [] = (if cur = [] then [] else [cur])"
| "split_acc cur (c # cs) =
     (if isspace c then (if cur = [] then split_acc [] cs else cur # split_acc [] cs)
      else split_acc (cur @ [c]) cs)"

definition split :: "string \<Rightarrow> string list" where
  "split s = split_acc [] s"

text \<open>\<open>sep.join(xs)\<close>.\<close>

fun join :: "string \<Rightarrow> string list \<Rightarrow> string" where
  "join sep [] = []"
| "join sep [x] = x"
| "join sep (x # y # ys) = x @ sep @ join sep (y # ys)"

text \<open>
  \<open>s.replace(old, new)\<close> for a non-empty \<open>old\<close>: leftmost, non-overlapping occurrences.
  The counter holds how many characters of a matched occurrence are still to be skipped.
\<close>

fun replace_from :: "string \<Rightarrow> string \<Rightarrow> nat \<Rightarrow> string \<Rightarrow> string" where
  "replace_from old new k [] = []"
| "replace_from old new (Suc k) (c # cs) = replace_from old new k cs"
| "replace_from old new 0 (c # cs) =
     (if old \<noteq> [] \<and> prefix old (c # cs)
      then new @ replace_from old new (length old - 1) cs
      else c # replace_from old new 0 cs)"

definition replace :: "string \<Rightarrow> string \<Rightarrow> string \<Rightarrow> string" where
  "replace old new s = replace_from old new 0 s"

text \<open>\<open>s.startswith(p)\<close>.\<close>

definition startswith :: "string \<Rightarrow> string \<Rightarrow> bool" where
  "startswith s p = prefix p s"

section \<open>Conversation memory\<close>

text \<open>
  A turn is the dictionary \<open>{"role": ..., "content": ...}\<close>; the memory object holds
  \<open>max_turns\<close> (a Python integer) and the list of turns. Persisting to disk after each
  mutation does not change the in-memory state and is left out.
\<close>

record turn =
  role :: string
  content :: string

record memory =
  max_turns :: int
  turns :: "turn list"

text \<open>
  The slice \<open>xs[k:]\<close> for an integer \<open>k\<close>: a negative \<open>k\<close> counts from the end and is
  clamped at the start of the list, a non-negative \<open>k\<close> drops \<open>k\<close> elements.
\<close>

definition slice_from :: "int \<Rightarrow> 'a list \<Rightarrow> 'a list" where
  "slice_from k xs =
     (if k < 0 then drop (nat (max 0 (int (length xs) + k))) xs else drop (nat k) xs)"

definition trim :: "memory \<Rightarrow> memory" where
  "trim m =
     (let max_messages = max_turns m * 2 in
      if int (length (turns m)) > max_messages
      then m\<lparr>turns := slice_from (- max_messages) (turns m)\<rparr>
      else m)"

definition add_user :: "string \<Rightarrow> memory \<Rightarrow> memory" where
  "add_user text m = trim (m\<lparr>turns := turns m @ [\<lparr>role = ''user'', content = text\<rparr>]\<rparr>)"

definition add_assistant :: "string \<Rightarrow> memory \<Rightarrow> memory" where
  "add_assistant text m =
     trim (m\<lparr>turns := turns m @ [\<lparr>role = ''assistant'', content = text\<rparr>]\<rparr>)"

definition clear :: "memory \<Rightarrow> memory" where
  "clear m = m\<lparr>turns := []\<rparr>"

definition forget_last :: "memory \<Rightarrow> memory" where
  "forget_last m =
     (let t1 = (if turns m \<noteq> [] \<and> role (last (turns m)) = ''assistant''
                then butlast (turns m) else turns m);
          t2 = (if t1 \<noteq> [] \<and> role (last t1) = ''user'' then butlast t1 else t1)
      in m\<lparr>turns := t2\<rparr>)"

section \<open>Sentence splitter\<close>

definition ABBREVIATIONS :: "string list" where
  "ABBREVIATIONS =
     [''mr'', ''mrs'', ''ms'', ''dr'', ''prof'', ''sr'', ''jr'', ''st'', ''ave'',
      ''inc'', ''ltd'', ''corp'', ''dept'', ''est'', ''approx'', ''etc'',
      ''vs'', ''fig'', ''vol'', ''no'', ''jan'', ''feb'', ''mar'', ''apr'',
      ''jun'', ''jul'', ''aug'', ''sep'', ''oct'', ''nov'', ''dec'']"

text \<open>
  The three guards of the loop body, for a word that ends in sentence-ending
  punctuation; \<open>rest\<close> is the list of the words after it, so that \<open>words[i + 1]\<close> is
  its head when \<open>i + 1 < len(words)\<close>.
\<close>

definition is_abbreviation :: "string \<Rightarrow> bool" where
  "is_abbreviation word = (lower (rstrip_chars ''.!?'' word) \<in> set ABBREVIATIONS)"

definition decimal_follows :: "string \<Rightarrow> string list \<Rightarrow> bool" where
  "decimal_follows word rest =
     (last word = CHR ''.'' \<and> rest \<noteq> [] \<and> str_isdigit (take 1 (hd rest)))"

definition is_number_token :: "string \<Rightarrow> bool" where
  "is_number_token word =
     (last word = CHR ''.'' \<and>
      str_isdigit (replace ''.'' [] (replace '','' [] (lower (rstrip_chars ''.!?'' word)))))"

text \<open>
  The \<open>for\<close> loop over the words, with the accumulators \<open>current\<close> and \<open>sentences\<close>;
  it returns both as they are when the loop ends.
\<close>

fun split_loop :: "string list \<Rightarrow> string list \<Rightarrow> string list \<Rightarrow> string list \<times> string list" where
  "split_loop [] current sentences = (sentences, current)"
| "split_loop (word # rest) current sentences =
     (let current' = current @ [word] in
      if word \<noteq> [] \<and> last word \<in> set ''.!?'' then
        if is_abbreviation word then split_loop rest current' sentences
        else if decimal_follows word rest then split_loop rest current' sentences
        else if is_number_token word then split_loop rest current' sentences
        else
          (let sentence = strip (join '' '' current') in
           split_loop rest [] (if sentence \<noteq> [] then sentences @ [sentence] else sentences))
      else split_loop rest current' sentences)"

definition split_into_sentences :: "string \<Rightarrow> string list" where
  "split_into_sentences text =
     (if strip text = [] then []
      else
        (case split_loop (split text) [] [] of
           (sentences, current) \<Rightarrow>
             if current \<noteq> [] then
               (let sentence = strip (join '' '' current) in
                if sentence \<noteq> [] then sentences @ [sentence] else sentences)
             else sentences))"

section \<open>Text clean-up for speech\<close>

text \<open>
  \<open>re.sub(r"\.(\s*\.)+", ".", text)\<close>: a period followed by one or more groups of
  optional whitespace and a period becomes a single period. \<open>skip_period_groups\<close>
  consumes the longest run of such groups at the start of its argument and returns what
  is left (its argument itself when no group starts there).
\<close>

function skip_period_groups :: "string \<Rightarrow> string" where
  "skip_period_groups s =
     (case dropWhile isspace s of
        [] \<Rightarrow> s
      | c # r \<Rightarrow> if c = CHR ''.'' then skip_period_groups r else s)"
  by pat_completeness auto
termination
proof (relation "measure length")
  show "wf (measure length)" by simp
next
  fix s :: string and c r
  assume "dropWhile isspace s = c # r"
  then have "length (c # r) \<le> length s"
    using length_dropWhile_le [of isspace s] by simp
  then show "(r, s) \<in> measure length" by simp
qed

function sub_periods :: "string \<Rightarrow> string" where
  "sub_periods [] = []"
| "sub_periods (c # cs) =
     (if c = CHR ''.'' \<and> length (skip_period_groups cs) < length cs
      then CHR ''.'' # sub_periods (skip_period_groups cs)
      else c # sub_periods cs)"
  by pat_completeness auto
termination
  by (relation "measure length") auto

text \<open>\<open>re.sub(r"\s{2,}", " ", text)\<close>: a run of two or more whitespace characters
  becomes one space; a single whitespace character stays as it is.\<close>

function sub_spaces :: "string \<Rightarrow> string" where
  "sub_spaces [] = []"
| "sub_spaces (c # cs) =
     (if isspace c \<and> cs \<noteq> [] \<and> isspace (hd cs)
      then CHR '' '' # sub_spaces (dropWhile isspace cs)
      else c # sub_spaces cs)"
  by pat_completeness auto
termination
proof (relation "measure length")
  show "wf (measure length)" by simp
next
  fix c :: char and cs :: string
  show "(dropWhile isspace cs, c # cs) \<in> measure length"
    using length_dropWhile_le [of isspace cs] by simp
next
  fix c :: char and cs :: string
  show "(cs, c # cs) \<in> measure length" by simp
qed

definition newline :: char where
  "newline = CHR 0x0A"

definition format_for_speech :: "string \<Rightarrow> string" where
  "format_for_speech text =
     (if text = [] then []
      else
        (let t1 = replace ''#'' [] (replace ''*'' [] (replace ''**'' [] text));
             t2 = replace ''`'' [] (replace ''```'' [] t1);
             t3 = replace [newline] ''. '' (replace [newline, newline] ''. '' t2);
             t4 = sub_periods t3;
             t5 = sub_spaces t4
         in strip t5))"

section \<open>Streaming pipeline\<close>

text \<open>
  The two queues carry strings, byte buffers and the value \<open>None\<close> that marks the end
  of the stream. A queue is the list of the items it holds, oldest first: \<open>put\<close>
  appends, \<open>get\<close> removes the head.
\<close>

datatype audio = Pcm string | Text string

record pipeline =
  tts_enabled :: bool
  cancel :: bool
  sentence_queue :: "string option list"
  audio_queue :: "audio option list"
  full_response :: string

definition put_sentence :: "string option \<Rightarrow> pipeline \<Rightarrow> pipeline" where
  "put_sentence x p = p\<lparr>sentence_queue := sentence_queue p @ [x]\<rparr>"

definition put_audio :: "audio option \<Rightarrow> pipeline \<Rightarrow> pipeline" where
  "put_audio x p = p\<lparr>audio_queue := audio_queue p @ [x]\<rparr>"

subsection \<open>Route detection\<close>

definition is_word_or_dash :: "char \<Rightarrow> bool" where
  "is_word_or_dash c = (isalnum c \<or> c = CHR ''_'' \<or> c = CHR ''-'')"

text \<open>
  \<open>re.match(r"\[ROUTE:([\w-]+)\]\s*(.*)", s, re.DOTALL)\<close>, returning the two groups.
  The class \<open>[\w-]\<close> contains neither \<open>]\<close> nor whitespace, so the greedy match of each
  part is the only one.
\<close>

definition match_route_prefix :: "string \<Rightarrow> (string \<times> string) option" where
  "match_route_prefix s =
     (if prefix ''[ROUTE:'' s then
        (let s2 = drop 7 s;
             agent_id = takeWhile is_word_or_dash s2;
             s3 = dropWhile is_word_or_dash s2
         in if agent_id \<noteq> [] \<and> s3 \<noteq> [] \<and> hd s3 = CHR '']''
            then Some (agent_id, dropWhile isspace (tl s3))
            else None)
      else None)"

text \<open>The same pattern with a leading \<open>\s*\<close>, as the pipeline uses it.\<close>

definition match_route :: "string \<Rightarrow> (string \<times> string) option" where
  "match_route s = match_route_prefix (dropWhile isspace s)"

definition route_sentinel :: "string \<Rightarrow> string \<Rightarrow> string" where
  "route_sentinel agent_id refined_query = ''__ROUTE__:'' @ agent_id @ '':'' @ refined_query"

text \<open>
  \<open>_process_token_buffer\<close>; \<open>rdc\<close> is the configured \<open>ROUTE_DETECTION_CHARS\<close>
  (50 when the configuration does not set it).
\<close>

definition process_token_buffer :: "int \<Rightarrow> string \<Rightarrow> bool \<Rightarrow> pipeline \<Rightarrow> bool \<times> pipeline" where
  "process_token_buffer rdc token_buffer route_check_done p =
     (if route_check_done then (False, p)
      else if int (length token_buffer) > rdc + 50 then (False, p)
      else
        (case match_route token_buffer of
           Some (agent_id, rest) \<Rightarrow>
             (let refined_query = strip rest;
                  p1 = p\<lparr>full_response := ''[ROUTE:'' @ agent_id @ ''] '' @ refined_query\<rparr>;
                  p2 = put_sentence (Some (route_sentinel agent_id refined_query)) p1
              in (True, put_sentence None p2))
         | None \<Rightarrow> (False, p)))"

subsection \<open>Sentence emission\<close>

definition emit_one :: "string \<Rightarrow> pipeline \<Rightarrow> pipeline" where
  "emit_one sent p =
     (if strip sent \<noteq> [] \<and> \<not> cancel p
      then (put_sentence (Some sent) p)\<lparr>full_response := full_response p @ sent @ '' ''\<rparr>
      else p)"

definition emit_sentences :: "string \<Rightarrow> pipeline \<Rightarrow> string \<times> pipeline" where
  "emit_sentences token_buffer p =
     (let cleaned = format_for_speech token_buffer;
          sentences = split_into_sentences cleaned
      in if length sentences > 1
         then (last sentences, foldl (\<lambda>q sent. emit_one sent q) p (butlast sentences))
         else (token_buffer, p))"

definition flush_buffer :: "string \<Rightarrow> pipeline \<Rightarrow> pipeline" where
  "flush_buffer token_buffer p =
     (if strip token_buffer \<noteq> [] \<and> \<not> cancel p then
        (let cleaned = format_for_speech token_buffer in
         if cleaned \<noteq> []
         then (put_sentence (Some cleaned) p)\<lparr>full_response := full_response p @ cleaned\<rparr>
         else p)
      else p)"

subsection \<open>Provider streams\<close>

text \<open>
  What a provider does when asked is an input of the model. A request is either
  refused before the first line arrives (connect error, timeout, HTTP error status), or
  it delivers lines. A line is blank or not JSON (\<open>Blank\<close>), the server-sent-events
  terminator \<open>data: [DONE]\<close> (\<open>DoneMarker\<close>), a JSON object with its content token and
  its end flag (\<open>Data\<close>: \<open>done\<close> for the local provider, \<open>finish_reason\<close> for a cloud
  provider), or the point where reading raises (\<open>Raise\<close>).
\<close>

datatype failure = ConnectError | TimeoutException | HTTPStatusError | OtherError

datatype line = Blank | DoneMarker | Data string bool | Raise failure

datatype reply = Refused failure | Streaming "line list"

text \<open>The end of a stream: flush the buffer, put the end marker, report success.\<close>

definition finish_stream :: "string \<Rightarrow> pipeline \<Rightarrow> bool \<times> pipeline" where
  "finish_stream token_buffer p = (True, put_sentence None (flush_buffer token_buffer p))"

text \<open>
  What both loops do with a non-empty token: append it to the buffer, try route
  detection, close the detection window, emit the complete sentences.
\<close>

datatype token_result = Routed pipeline | Continue string bool pipeline

definition token_step :: "int \<Rightarrow> string \<Rightarrow> string \<Rightarrow> bool \<Rightarrow> pipeline \<Rightarrow> token_result" where
  "token_step rdc token token_buffer route_check_done p =
     (let buf = token_buffer @ token in
      case process_token_buffer rdc buf route_check_done p of
        (True, p1) \<Rightarrow> Routed p1
      | (False, p1) \<Rightarrow>
          (let done1 = (if \<not> route_check_done \<and> int (length buf) > rdc then True
                        else route_check_done)
           in case emit_sentences buf p1 of (buf2, p2) \<Rightarrow> Continue buf2 done1 p2))"

text \<open>The loop of \<open>_try_ollama_stream\<close> over the lines of the response.\<close>

fun ollama_loop :: "int \<Rightarrow> line list \<Rightarrow> string \<Rightarrow> bool \<Rightarrow> pipeline \<Rightarrow> bool \<times> pipeline" where
  "ollama_loop rdc [] token_buffer route_check_done p = finish_stream token_buffer p"
| "ollama_loop rdc (Raise f # ls) token_buffer route_check_done p = (False, p)"
| "ollama_loop rdc (l # ls) token_buffer route_check_done p =
     (if cancel p then (True, p)
      else
        (case l of
           Data token fin \<Rightarrow>
             if token = [] then
               (if fin then finish_stream token_buffer p
                else ollama_loop rdc ls token_buffer route_check_done p)
             else
               (case token_step rdc token token_buffer route_check_done p of
                  Routed p1 \<Rightarrow> (True, p1)
                | Continue buf2 done1 p2 \<Rightarrow>
                    if fin then finish_stream buf2 p2 else ollama_loop rdc ls buf2 done1 p2)
         | _ \<Rightarrow> ollama_loop rdc ls token_buffer route_check_done p))"

definition try_ollama_stream :: "int \<Rightarrow> reply \<Rightarrow> pipeline \<Rightarrow> bool \<times> pipeline" where
  "try_ollama_stream rdc r p =
     (case r of Refused f \<Rightarrow> (False, p) | Streaming ls \<Rightarrow> ollama_loop rdc ls [] False p)"

text \<open>The loop of \<open>_try_cloud_stream\<close>.\<close>

fun cloud_loop :: "int \<Rightarrow> line list \<Rightarrow> string \<Rightarrow> bool \<Rightarrow> pipeline \<Rightarrow> bool \<times> pipeline" where
  "cloud_loop rdc [] token_buffer route_check_done p = finish_stream token_buffer p"
| "cloud_loop rdc (Raise f # ls) token_buffer route_check_done p = (False, p)"
| "cloud_loop rdc (l # ls) token_buffer route_check_done p =
     (if cancel p then (True, p)
      else
        (case l of
           Blank \<Rightarrow> cloud_loop rdc ls token_buffer route_check_done p
         | DoneMarker \<Rightarrow> finish_stream token_buffer p
         | Data token fin \<Rightarrow>
             if token = [] then
               (if fin then finish_stream token_buffer p
                else cloud_loop rdc ls token_buffer route_check_done p)
             else
               (case token_step rdc token token_buffer route_check_done p of
                  Routed p1 \<Rightarrow> (True, p1)
                | Continue buf2 done1 p2 \<Rightarrow> cloud_loop rdc ls buf2 done1 p2)))"

record provider =
  pid :: string
  name :: string
  endpoint :: string
  apiKey :: string
  compatible :: string
  model :: string

text \<open>
  \<open>load_llm_providers\<close> builds the fallback chain from \<open>llm-providers.json\<close> and the
  environment. An entry of the file is a dictionary whose keys may be missing; reading a
  missing \<open>id\<close>, \<open>name\<close> or \<open>endpoint\<close> raises \<open>KeyError\<close>, and the function then
  returns the empty chain, as it does when the file is missing or is not JSON.
\<close>

record provider_entry =
  entry_id :: "string option"
  entry_name :: "string option"
  entry_endpoint :: "string option"
  entry_apiKeyEnv :: "string option"
  entry_compatible :: "string option"
  entry_models :: "string list"

record providers_config =
  providers :: "provider_entry list"
  fallbackChain :: "string list option"
  preferredModel :: "string \<rightharpoonup> string"







text \<open>
  The surroundings of one turn: the two module constants read from the configuration,
  and what the local provider, each cloud provider and the specialist agents answer.
\<close>

record world =
  ROUTE_DETECTION_CHARS :: int
  CLOUD_FALLBACKS :: "provider list"
  ollama_reply :: reply
  cloud_reply :: "provider \<Rightarrow> reply"
  agent_reply :: "string \<Rightarrow> string \<Rightarrow> string option"

definition try_cloud_stream :: "world \<Rightarrow> provider \<Rightarrow> pipeline \<Rightarrow> bool \<times> pipeline" where
  "try_cloud_stream w prov p =
     (if compatible prov = ''google'' then (False, p)
      else
        (case cloud_reply w prov of
           Refused f \<Rightarrow> (False, p)
         | Streaming ls \<Rightarrow> cloud_loop (ROUTE_DETECTION_CHARS w) ls [] False p))"

text \<open>The \<open>for provider in CLOUD_FALLBACKS\<close> loop; it reports whether a provider succeeded.\<close>

fun try_fallbacks :: "world \<Rightarrow> provider list \<Rightarrow> pipeline \<Rightarrow> bool \<times> pipeline" where
  "try_fallbacks w [] p = (False, p)"
| "try_fallbacks w (prov # provs) p =
     (if cancel p then (False, p)
      else
        (case try_cloud_stream w prov p of
           (True, p1) \<Rightarrow> (True, p1)
         | (False, p1) \<Rightarrow> try_fallbacks w provs p1))"

definition APOLOGY :: string where
  "APOLOGY = ''I can't reach any of my thinking engines right now.''"

definition ERROR_RESPONSE :: string where
  "ERROR_RESPONSE = ''[error: all providers unreachable]''"

definition all_providers_failed :: "pipeline \<Rightarrow> pipeline" where
  "all_providers_failed p =
     (if \<not> cancel p
      then put_sentence None ((put_sentence (Some APOLOGY) p)\<lparr>full_response := ERROR_RESPONSE\<rparr>)
      else p)"

definition stream_from_ollama :: "world \<Rightarrow> pipeline \<Rightarrow> pipeline" where
  "stream_from_ollama w p =
     (case try_ollama_stream (ROUTE_DETECTION_CHARS w) (ollama_reply w) p of
        (True, p1) \<Rightarrow> p1
      | (False, p1) \<Rightarrow>
          if CLOUD_FALLBACKS w \<noteq> [] \<and> \<not> cancel p1 then
            (case try_fallbacks w (CLOUD_FALLBACKS w) p1 of
               (True, p2) \<Rightarrow> p2
             | (False, p2) \<Rightarrow> all_providers_failed p2)
          else all_providers_failed p1)"

text \<open>
  \<open>run\<close> resets the pipeline and starts the three threads; the response it returns is
  \<open>full_response\<close>, which only the first thread writes. The model runs that thread to
  its end, for a turn during which \<open>interrupt\<close> is not called.
\<close>

definition reset :: "pipeline \<Rightarrow> pipeline" where
  "reset p = p\<lparr>cancel := False, full_response := [], sentence_queue := [], audio_queue := []\<rparr>"

definition run :: "world \<Rightarrow> pipeline \<Rightarrow> pipeline" where
  "run w p = stream_from_ollama w (reset p)"

subsection \<open>Interruption and playback\<close>

text \<open>
  \<open>interrupt\<close> sets the flag, drains both queues and puts an end marker into each.
\<close>

definition set_cancel :: "pipeline \<Rightarrow> pipeline" where
  "set_cancel p = p\<lparr>cancel := True\<rparr>"

definition drain_queues :: "pipeline \<Rightarrow> pipeline" where
  "drain_queues p = p\<lparr>sentence_queue := [], audio_queue := []\<rparr>"

definition poison_queues :: "pipeline \<Rightarrow> pipeline" where
  "poison_queues p = put_audio None (put_sentence None p)"

definition interrupt :: "pipeline \<Rightarrow> pipeline" where
  "interrupt p = poison_queues (drain_queues (set_cancel p))"

text \<open>
  The playback thread \<open>_play_audio_chunks\<close>, one atomic action at a time, so that the
  actions of the other threads can fall between any two of them. \<open>At_head\<close> is the test
  of the \<open>while\<close> loop, \<open>Getting\<close> the \<open>get\<close> with its timeout, \<open>Got x\<close> the checks on
  the item taken, \<open>Playing a\<close> the blocking playback of a buffer that passed the checks,
  \<open>Returned\<close> the end of the thread. \<open>played\<close> lists the buffers handed to the
  sound device.
\<close>

datatype pc = At_head | Getting | Got "audio option" | Playing audio | Returned

record player =
  at :: pc
  played :: "string list"

definition SKIP :: audio where
  "SKIP = Pcm ''__SKIP__''"

fun is_route_item :: "audio \<Rightarrow> bool" where
  "is_route_item (Text s) = startswith s ''__ROUTE__:''"
| "is_route_item (Pcm b) = False"

text \<open>A string that reaches the sound device raises inside the \<open>try\<close> and is only logged.\<close>

fun play_audio :: "audio \<Rightarrow> string list \<Rightarrow> string list" where
  "play_audio (Pcm b) out = out @ [b]"
| "play_audio (Text s) out = out"

fun player_step :: "pipeline \<times> player \<Rightarrow> pipeline \<times> player" where
  "player_step (p, pl) =
     (case at pl of
        At_head \<Rightarrow> (p, pl\<lparr>at := (if cancel p then Returned else Getting)\<rparr>)
      | Getting \<Rightarrow>
          (case audio_queue p of
             [] \<Rightarrow> (p, pl\<lparr>at := At_head\<rparr>)
           | x # xs \<Rightarrow> (p\<lparr>audio_queue := xs\<rparr>, pl\<lparr>at := Got x\<rparr>))
      | Got x \<Rightarrow>
          (case x of
             None \<Rightarrow> (p, pl\<lparr>at := Returned\<rparr>)
           | Some a \<Rightarrow>
               if cancel p then (p, pl\<lparr>at := Returned\<rparr>)
               else if is_route_item a then (p, pl\<lparr>at := Returned\<rparr>)
               else if a = SKIP then (p, pl\<lparr>at := At_head\<rparr>)
               else (p, pl\<lparr>at := Playing a\<rparr>))
      | Playing a \<Rightarrow> (p, pl\<lparr>at := At_head, played := play_audio a (played pl)\<rparr>)
      | Returned \<Rightarrow> (p, pl))"

text \<open>
  What can happen while the playback thread runs: one of its own actions, one of the
  three actions of an \<open>interrupt\<close> call, or another thread putting an item into the
  audio queue.
\<close>

datatype event = Player | Set_cancel | Drain | Poison | Put "audio option"

fun event_step :: "event \<Rightarrow> pipeline \<times> player \<Rightarrow> pipeline \<times> player" where
  "event_step Player s = player_step s"
| "event_step Set_cancel (p, pl) = (set_cancel p, pl)"
| "event_step Drain (p, pl) = (drain_queues p, pl)"
| "event_step Poison (p, pl) = (poison_queues p, pl)"
| "event_step (Put x) (p, pl) = (put_audio x p, pl)"

definition exec :: "event list \<Rightarrow> pipeline \<times> player \<Rightarrow> pipeline \<times> player" where
  "exec es s = foldl (\<lambda>s e. event_step e s) s es"

section \<open>One conversation turn\<close>

definition AGENT_NAMES :: "(string \<times> string) list" where
  "AGENT_NAMES =
     [(''deal-scanner'', ''Deal Scanner''),
      (''newsletter-engine'', ''Newsletter Engine''),
      (''reputation-monitor'', ''Reputation Monitor''),
      (''compliance-engine'', ''Compliance Engine''),
      (''outreach-agent'', ''Outreach Agent''),
      (''overnight-deliverables'', ''Overnight Deliverables''),
      (''content-studio'', ''Content Studio''),
      (''system-guardian'', ''System Guardian''),
      (''print-designer'', ''Print Designer''),
      (''argument-simulator'', ''Argument Simulator''),
      (''zombie-resurrector'', ''Zombie Resurrector''),
      (''codebase-archaeologist'', ''Codebase Archaeologist''),
      (''template-publisher'', ''Template Publisher''),
      (''microtool-factory'', ''Microtool Factory''),
      (''openclaw-core'', ''OpenClaw Core'')]"

definition agent_name :: "string \<Rightarrow> string" where
  "agent_name agent_id = (case map_of AGENT_NAMES agent_id of Some n \<Rightarrow> n | None \<Rightarrow> agent_id)"

text \<open>\<open>_handle_routing\<close>, as far as it changes the conversation memory.\<close>

definition handle_routing :: "world \<Rightarrow> string \<Rightarrow> string \<Rightarrow> memory \<Rightarrow> memory" where
  "handle_routing w agent_id refined_query m =
     (case agent_reply w agent_id refined_query of
        None \<Rightarrow> m
      | Some agent_response \<Rightarrow>
          if agent_response = [] then m
          else
            (let spoken = format_for_speech agent_response;
                 ws = split spoken;
                 spoken1 = (if length ws > 150
                            then join '' '' (take 150 ws) @ ''. Full response sent to Telegram.''
                            else spoken)
             in add_assistant (''[Routed to '' @ agent_name agent_id @ ''] '' @ spoken1) m))"

text \<open>\<open>_handle_turn\<close>: the memory after the turn, and the pipeline as the run leaves it.\<close>

definition handle_turn :: "world \<Rightarrow> string \<Rightarrow> memory \<times> pipeline \<Rightarrow> memory \<times> pipeline" where
  "handle_turn w text s =
     (let m1 = add_user text (fst s);
          p1 = run w (snd s);
          response = full_response p1
      in case match_route_prefix response of
           Some (agent_id, rest) \<Rightarrow>
             (let refined_query = (if strip rest \<noteq> [] then strip rest else text)
              in (handle_routing w agent_id refined_query m1, p1))
         | None \<Rightarrow>
             if response \<noteq> [] \<and> \<not> startswith response ''[error:''
             then (add_assistant response m1, p1)
             else (m1, p1))"

section \<open>Notions used in the statements\<close>

text \<open>The cap on the length of the history.\<close>

definition within_cap :: "memory \<Rightarrow> bool" where
  "within_cap m = (int (length (turns m)) \<le> 2 * max_turns m)"

text \<open>Removing the trailing turn when it has the given role.\<close>

definition remove_trailing :: "string \<Rightarrow> turn list \<Rightarrow> turn list" where
  "remove_trailing r ts = (if ts \<noteq> [] \<and> role (last ts) = r then butlast ts else ts)"

text \<open>Appending user/assistant pairs, one \<open>add_user\<close> and one \<open>add_assistant\<close> each.\<close>

fun add_pairs :: "(string \<times> string) list \<Rightarrow> memory \<Rightarrow> memory" where
  "add_pairs [] m = m"
| "add_pairs ((u, a) # ps) m = add_pairs ps (add_assistant a (add_user u m))"

definition pair_turns :: "string \<times> string \<Rightarrow> turn list" where
  "pair_turns p =
     [\<lparr>role = ''user'', content = fst p\<rparr>, \<lparr>role = ''assistant'', content = snd p\<rparr>]"

definition empty_memory :: "int \<Rightarrow> memory" where
  "empty_memory n = \<lparr>max_turns = n, turns = []\<rparr>"

definition keep_last :: "nat \<Rightarrow> 'a list \<Rightarrow> 'a list" where
  "keep_last k xs = drop (length xs - k) xs"

text \<open>A word as \<open>split\<close> produces it: not empty and free of whitespace.\<close>

definition plain_word :: "string \<Rightarrow> bool" where
  "plain_word w = (w \<noteq> [] \<and> (\<forall>c\<in>set w. \<not> isspace c))"

text \<open>The playback thread is not inside a blocking playback.\<close>

fun not_playing :: "pc \<Rightarrow> bool" where
  "not_playing (Playing a) = False"
| "not_playing _ = True"

text \<open>Concrete pipelines, players and surroundings for the examples.\<close>

definition idle_pipeline :: pipeline where
  "idle_pipeline = \<lparr>tts_enabled = True, cancel = False, sentence_queue = [],
     audio_queue = [], full_response = []\<rparr>"

definition cancelled_playback :: "pipeline \<times> player" where
  "cancelled_playback =
     (idle_pipeline\<lparr>cancel := True, audio_queue := [Some (Pcm ''two''), None]\<rparr>,
      \<lparr>at = At_head, played = [''one'']\<rparr>)"

definition returned_playback :: "pipeline \<times> player" where
  "returned_playback =
     (idle_pipeline\<lparr>audio_queue := [Some (Pcm ''two''), None]\<rparr>,
      \<lparr>at = Returned, played = [''one'']\<rparr>)"




text \<open>The routing marker of the example reply, and the marker without its closing bracket.\<close>

definition MARKER :: string where
  "MARKER = ''[ROUTE:deal-scanner]''"

definition MARKER_BODY :: string where
  "MARKER_BODY = ''[ROUTE:deal-scanner''"

definition ROUTED_REPLY :: string where
  "ROUTED_REPLY = ''[ROUTE:deal-scanner] find me a laundromat''"

text \<open>
  A buffer that the clean-up and the splitter leave alone: no whitespace, no markdown
  character, no sentence-ending punctuation.
\<close>

definition inert :: "string \<Rightarrow> bool" where
  "inert s = list_all (\<lambda>c. \<not> isspace c \<and> c \<notin> set ''*#`.!?'') s"

text \<open>
  The two loops with route detection left out: every token is ordinary text for the
  sentence emitter.
\<close>

fun plain_ollama_loop :: "line list \<Rightarrow> string \<Rightarrow> pipeline \<Rightarrow> bool \<times> pipeline" where
  "plain_ollama_loop [] token_buffer p = finish_stream token_buffer p"
| "plain_ollama_loop (Raise f # ls) token_buffer p = (False, p)"
| "plain_ollama_loop (l # ls) token_buffer p =
     (if cancel p then (True, p)
      else
        (case l of
           Data token fin \<Rightarrow>
             if token = [] then
               (if fin then finish_stream token_buffer p
                else plain_ollama_loop ls token_buffer p)
             else
               (case emit_sentences (token_buffer @ token) p of
                  (buf2, p2) \<Rightarrow>
                    if fin then finish_stream buf2 p2 else plain_ollama_loop ls buf2 p2)
         | _ \<Rightarrow> plain_ollama_loop ls token_buffer p))"

fun plain_cloud_loop :: "line list \<Rightarrow> string \<Rightarrow> pipeline \<Rightarrow> bool \<times> pipeline" where
  "plain_cloud_loop [] token_buffer p = finish_stream token_buffer p"
| "plain_cloud_loop (Raise f # ls) token_buffer p = (False, p)"
| "plain_cloud_loop (l # ls) token_buffer p =
     (if cancel p then (True, p)
      else
        (case l of
           Blank \<Rightarrow> plain_cloud_loop ls token_buffer p
         | DoneMarker \<Rightarrow> finish_stream token_buffer p
         | Data token fin \<Rightarrow>
             if token = [] then
               (if fin then finish_stream token_buffer p
                else plain_cloud_loop ls token_buffer p)
             else
               (case emit_sentences (token_buffer @ token) p of
                  (buf2, p2) \<Rightarrow> plain_cloud_loop ls buf2 p2)))"

text \<open>
  A turn in which the local provider delivers a long opening and then times out, and the
  first cloud provider answers with a routing marker.
\<close>

definition groq :: provider where
  "groq = \<lparr>pid = ''groq'', name = ''Groq'', endpoint = ''https://api.groq.com/openai/v1'',
     apiKey = ''key'', compatible = ''openai'', model = ''llama-3.3-70b-versatile''\<rparr>"

definition LONG_OPENING :: string where
  "LONG_OPENING = ''I think the best option here is to look at the listings. Then''"

definition failover_world :: world where
  "failover_world = \<lparr>ROUTE_DETECTION_CHARS = 50, CLOUD_FALLBACKS = [groq],
     ollama_reply = Streaming [Data LONG_OPENING False, Raise TimeoutException],
     cloud_reply = (\<lambda>prov. Streaming [Data ROUTED_REPLY False]),
     agent_reply = (\<lambda>agent_id message. None)\<rparr>"

text \<open>
  A turn in which the local provider streams the routed reply in two fragments, the
  first ending after \<open>find\<close>, and the specialist agent answers with the message it was
  sent.
\<close>

definition fragmented_world :: world where
  "fragmented_world = \<lparr>ROUTE_DETECTION_CHARS = 50, CLOUD_FALLBACKS = [],
     ollama_reply = Streaming [Data ''[ROUTE:deal-scanner] find'' False,
                               Data '' me a laundromat'' False],
     cloud_reply = (\<lambda>prov. Refused ConnectError),
     agent_reply = (\<lambda>agent_id message. Some message)\<rparr>"

section \<open>Conversation memory: trimming and forgetting\<close>

lemma keep_last_append: "keep_last k (keep_last k xs @ ys) = keep_last k (xs @ ys)"
proof (cases "k \<le> length xs")
  case True
  then have "length xs + length ys - (length xs - k + k) + (length xs - k) = length xs + length ys - k"
    by arith
  then show ?thesis by (simp add: keep_last_def)
next
  case False
  then show ?thesis by (simp add: keep_last_def)
qed

lemma trim_max_turns [simp]: "max_turns (trim m) = max_turns m"
  by (simp add: trim_def Let_def)

lemma trim_turns_pos:
  assumes "1 \<le> max_turns m"
  shows "turns (trim m) = keep_last (nat (2 * max_turns m)) (turns m)"
  using assms by (auto simp: trim_def Let_def slice_from_def keep_last_def nat_diff_distrib' max_def nat_add_distrib mult.commute)

lemma add_user_max_turns [simp]: "max_turns (add_user u m) = max_turns m"
  by (simp add: add_user_def)

lemma add_assistant_max_turns [simp]: "max_turns (add_assistant u m) = max_turns m"
  by (simp add: add_assistant_def)

lemma add_user_turns_pos:
  "1 \<le> max_turns m \<Longrightarrow> turns (add_user u m) =
     keep_last (nat (2 * max_turns m)) (turns m @ [\<lparr>role = ''user'', content = u\<rparr>])"
  by (simp add: add_user_def trim_turns_pos)

lemma add_assistant_turns_pos:
  "1 \<le> max_turns m \<Longrightarrow> turns (add_assistant a m) =
     keep_last (nat (2 * max_turns m)) (turns m @ [\<lparr>role = ''assistant'', content = a\<rparr>])"
  by (simp add: add_assistant_def trim_turns_pos)

lemma length_keep_last: "length (keep_last k xs) = min k (length xs)"
  by (simp add: keep_last_def)

lemma keep_last_id: "length xs \<le> k \<Longrightarrow> keep_last k xs = xs"
  by (simp add: keep_last_def)

lemma add_pairs_max_turns [simp]: "max_turns (add_pairs ps m) = max_turns m"
  by (induction ps arbitrary: m) auto

lemma within_cap_trim: "1 \<le> max_turns m \<Longrightarrow> within_cap (trim m)"
  by (simp add: within_cap_def trim_turns_pos length_keep_last)

lemma cap_preserved_pos:
  assumes "1 \<le> max_turns m"
  shows "within_cap (add_user u m)" "within_cap (add_assistant a m)" 
  using assms by (simp_all add: add_user_def add_assistant_def within_cap_trim)

lemma add_pairs_turns_pos:
  "1 \<le> max_turns m \<Longrightarrow> within_cap m \<Longrightarrow> turns (add_pairs ps m) =
     keep_last (nat (2 * max_turns m)) (turns m @ concat (map pair_turns ps))"
proof (induction ps arbitrary: m)
  case Nil
  then show ?case by (simp add: keep_last_def within_cap_def)
next
  case (Cons p ps)
  obtain u a where p: "p = (u, a)" by (cases p)
  let ?k = "nat (2 * max_turns m)"
  let ?m' = "add_assistant a (add_user u m)"
  have t: "turns ?m' = keep_last ?k (turns m @ pair_turns p)"
    using Cons.prems
    by (simp add: add_assistant_turns_pos add_user_turns_pos keep_last_append pair_turns_def p)
  have cap: "within_cap ?m'" using Cons.prems by (simp add: cap_preserved_pos)
  have "turns (add_pairs (p # ps) m) = turns (add_pairs ps ?m')" by (simp add: p)
  also have "\<dots> = keep_last ?k (turns ?m' @ concat (map pair_turns ps))"
    using Cons.IH [of ?m'] Cons.prems cap by simp
  also have "\<dots> = keep_last ?k (turns m @ concat (map pair_turns (p # ps)))"
    by (simp add: t keep_last_append)
  finally show ?case .
qed

lemma length_concat_pair_turns: "length (concat (map pair_turns ps)) = 2 * length ps"
  by (induction ps) (auto simp: pair_turns_def)

lemma add_pairs_evicts_oldest:
  assumes "1 \<le> n" and "length ps = Suc n"
  shows "turns (add_pairs ps (empty_memory (int n))) = concat (map pair_turns (tl ps))"
    and "length (turns (add_pairs ps (empty_memory (int n)))) = 2 * n"
proof -
  obtain p qs where ps: "ps = p # qs" using assms(2) by (cases ps) auto
  have len: "length (concat (map pair_turns qs)) = 2 * n"
    using assms(2) by (simp add: ps length_concat_pair_turns)
  have "turns (add_pairs ps (empty_memory (int n))) =
          keep_last (2 * n) (concat (map pair_turns ps))"
    using assms(1) add_pairs_turns_pos [of "empty_memory (int n)" ps]
    by (simp add: empty_memory_def within_cap_def nat_mult_distrib)
  also have "\<dots> = concat (map pair_turns qs)"
    using len by (simp add: ps keep_last_def pair_turns_def)
  finally show "turns (add_pairs ps (empty_memory (int n))) = concat (map pair_turns (tl ps))"
    by (simp add: ps)
  then show "length (turns (add_pairs ps (empty_memory (int n)))) = 2 * n"
    using len by (simp add: ps)
qed

lemma forget_last_eq: "turns (forget_last m) = remove_trailing ''user'' (remove_trailing ''assistant'' (turns m))"
  by (simp add: forget_last_def remove_trailing_def Let_def)

lemma length_remove_trailing: "length (remove_trailing r ts) \<le> length ts"
  by (simp add: remove_trailing_def)

lemma cap_preserved_removals:
  assumes "within_cap m"
  shows "within_cap (clear m)" "within_cap (forget_last m)"
proof -
  show "within_cap (clear m)" using assms by (simp add: within_cap_def clear_def)
  have "length (turns (forget_last m)) \<le> length (turns m)"
    unfolding forget_last_eq
    using length_remove_trailing [of "''user''" "remove_trailing ''assistant'' (turns m)"]
          length_remove_trailing [of "''assistant''" "turns m"] by linarith
  moreover have "max_turns (forget_last m) = max_turns m" by (simp add: forget_last_def Let_def)
  ultimately show "within_cap (forget_last m)" using assms by (simp add: within_cap_def)
qed


text \<open>
  C3. After \<open>maxTurns\<close> user/assistant pairs plus one more pair, appended to an empty
  memory, the memory should hold exactly \<open>maxTurns\<close> pairs, the oldest pair evicted. For
  \<open>max_turns = 0\<close> the slice \<open>turns[-0:]\<close> in \<open>_trim\<close> is the whole list: after one pair
  the memory holds that pair, not zero pairs. For \<open>max_turns \<ge> 1\<close> the property holds
  (\<open>add_pairs_evicts_oldest\<close>).
\<close>

theorem trim_keeps_pair_when_max_turns_zero:
  "turns (add_pairs [(''hello'', ''hi'')] (empty_memory 0)) = pair_turns (''hello'', ''hi'') \<and>
   length (turns (add_pairs [(''hello'', ''hi'')] (empty_memory 0))) = 2"
  by (simp add: empty_memory_def add_user_def add_assistant_def trim_def slice_from_def
      pair_turns_def)

text \<open>
  C8. The bound \<open>len(turns) \<le> 2 \<times> maxTurns\<close> should be kept by \<open>add_user\<close>,
  \<open>add_assistant\<close>, \<open>clear\<close> and \<open>forget_last\<close>. With \<open>max_turns = 0\<close> the empty memory
  satisfies it and \<open>add_user\<close> breaks it, through the same slice \<open>turns[-0:]\<close>. For
  \<open>max_turns \<ge> 1\<close> the two additions establish the bound (\<open>cap_preserved_pos\<close>), and the
  two removals keep it for every \<open>max_turns\<close> (\<open>cap_preserved_removals\<close>).
\<close>

theorem add_user_breaks_cap_when_max_turns_zero:
  "within_cap (empty_memory 0) \<and> \<not> within_cap (add_user ''hello'' (empty_memory 0))"
  by (simp add: empty_memory_def add_user_def trim_def slice_from_def within_cap_def)

text \<open>
  C6. \<open>forget_last\<close> makes two independent checks in order: it removes the trailing turn
  if its role is assistant, then the trailing turn of what is left if its role is user.
  In particular a history that ends in a user turn loses exactly that turn, and on an
  empty history nothing is removed.
\<close>

theorem forget_last_two_checks:
  "turns (forget_last m) = remove_trailing ''user'' (remove_trailing ''assistant'' (turns m)) \<and>
   max_turns (forget_last m) = max_turns m \<and>
   (turns m \<noteq> [] \<and> role (last (turns m)) = ''user'' \<longrightarrow>
      turns (forget_last m) = butlast (turns m)) \<and>
   (turns m = [] \<longrightarrow> turns (forget_last m) = [])"
  by (simp add: forget_last_def remove_trailing_def Let_def)

theorem forget_last_two_checks_witness:
  "turns (forget_last \<lparr>max_turns = 20, turns = pair_turns (''a'', ''b'') @ [\<lparr>role = ''user'', content = ''c''\<rparr>]\<rparr>)
     = pair_turns (''a'', ''b'') \<and>
   turns (forget_last \<lparr>max_turns = 20, turns = pair_turns (''a'', ''b'')\<rparr>) = [] \<and>
   turns (forget_last (empty_memory 20)) = []"
  using forget_last_two_checks [of "\<lparr>max_turns = 20, turns = pair_turns (''a'', ''b'') @ [\<lparr>role = ''user'', content = ''c''\<rparr>]\<rparr>"]
        forget_last_two_checks [of "\<lparr>max_turns = 20, turns = pair_turns (''a'', ''b'')\<rparr>"]
        forget_last_two_checks [of "empty_memory 20"]
  by (simp add: pair_turns_def empty_memory_def remove_trailing_def)

section \<open>Sentence splitter: the two examples and conservation of text\<close>

text \<open>
  C1. As specified, \<open>"The total is 12. It increased."\<close> is split into the two sentences
  \<open>"The total is 12."\<close> and \<open>"It increased."\<close>. The numeric guard of the splitter keeps
  the token \<open>12.\<close> from ending a sentence, so the code returns the whole input as one
  sentence.
\<close>

theorem numeric_token_example_not_two_sentences:
  "split_into_sentences ''The total is 12. It increased.''
     \<noteq> [''The total is 12.'', ''It increased.'']"
  by code_simp

text \<open>
  C1, as the code has it: \<open>"The total is 12. It increased."\<close> is returned as the single
  sentence \<open>"The total is 12. It increased."\<close>.
\<close>

theorem numeric_token_example_one_sentence:
  "split_into_sentences ''The total is 12. It increased.''
     = [''The total is 12. It increased.'']"
  by code_simp

text \<open>
  C9. \<open>"Dr. Smith arrived at 3.5pm. He left."\<close> is split into exactly the two sentences
  \<open>"Dr. Smith arrived at 3.5pm."\<close> and \<open>"He left."\<close>: neither the abbreviation \<open>Dr.\<close>
  nor the token with the decimal point ends a sentence early.
\<close>

theorem abbreviation_decimal_example:
  "split_into_sentences ''Dr. Smith arrived at 3.5pm. He left.''
     = [''Dr. Smith arrived at 3.5pm.'', ''He left.'']"
  by code_simp

lemma split_acc_words:
  "cur = [] \<or> plain_word cur \<Longrightarrow> w \<in> set (split_acc cur s) \<Longrightarrow> plain_word w"
proof (induction s arbitrary: cur)
  case Nil
  then show ?case by (auto split: if_splits)
next
  case (Cons c cs)
  show ?case
  proof (cases "isspace c")
    case True
    with Cons.prems have "w = cur \<and> cur \<noteq> [] \<or> w \<in> set (split_acc [] cs)"
      by (auto split: if_splits)
    then show ?thesis using Cons.IH [of "[]"] Cons.prems(1) by auto
  next
    case False
    with Cons.prems have "w \<in> set (split_acc (cur @ [c]) cs)" "plain_word (cur @ [c])"
      by (auto simp: plain_word_def)
    then show ?thesis using Cons.IH [of "cur @ [c]"] by simp
  qed
qed

lemma split_words: "w \<in> set (split s) \<Longrightarrow> plain_word w"
  using split_acc_words [of "[]" w s] by (simp add: split_def)

lemma split_acc_empty_iff:
  "split_acc cur s = [] \<longleftrightarrow> cur = [] \<and> list_all isspace s"
  by (induction s arbitrary: cur) auto

lemma all_dropWhile_iff: "(\<forall>x\<in>set (dropWhile P xs). P x) \<longleftrightarrow> (\<forall>x\<in>set xs. P x)"
  by (induction xs) auto

lemma strip_empty_iff: "strip s = [] \<longleftrightarrow> list_all isspace s"
  by (simp add: strip_def dropWhile_eq_Nil_conv all_dropWhile_iff list_all_iff)

lemma strip_id:
  assumes "s \<noteq> []" "\<not> isspace (hd s)" "\<not> isspace (last s)"
  shows "strip s = s"
proof -
  have "dropWhile isspace (rev s) = rev s"
    using assms by (cases "rev s") (auto simp: last_rev hd_rev)
  moreover have "dropWhile isspace s = s" using assms by (cases s) auto
  ultimately show ?thesis by (simp add: strip_def)
qed

lemma join_Cons: "ys \<noteq> [] \<Longrightarrow> join sep (x # ys) = x @ sep @ join sep ys"
  by (cases ys) auto

lemma join_append:
  "xs \<noteq> [] \<Longrightarrow> ys \<noteq> [] \<Longrightarrow> join sep (xs @ ys) = join sep xs @ sep @ join sep ys"
proof (induction xs)
  case Nil
  then show ?case by simp
next
  case (Cons x xs)
  then show ?case by (cases "xs = []") (simp_all add: join_Cons)
qed

lemma join_plain:
  assumes "ws \<noteq> []" "\<forall>w\<in>set ws. plain_word w"
  shows "join sep ws \<noteq> [] \<and> hd (join sep ws) = hd (hd ws) \<and> last (join sep ws) = last (last ws)"
  using assms
proof (induction ws)
  case Nil
  then show ?case by simp
next
  case (Cons w ws)
  then have w: "w \<noteq> []" by (simp add: plain_word_def)
  show ?case
  proof (cases "ws = []")
    case True
    with w show ?thesis by simp
  next
    case False
    with Cons have "join sep ws \<noteq> []" "last (join sep ws) = last (last ws)" by auto
    with False w show ?thesis by (simp add: join_Cons)
  qed
qed

lemma strip_join_plain:
  assumes "ws \<noteq> []" "\<forall>w\<in>set ws. plain_word w"
  shows "strip (join sep ws) = join sep ws" "join sep ws \<noteq> []"
proof -
  from assms have "plain_word (hd ws)" "plain_word (last ws)" by auto
  then have "\<not> isspace (hd (hd ws))" "\<not> isspace (last (last ws))"
    by (auto simp: plain_word_def)
  then show "strip (join sep ws) = join sep ws" "join sep ws \<noteq> []"
    using join_plain [OF assms, of sep] by (auto intro: strip_id)
qed

lemma join_groups:
  "\<forall>g\<in>set gs. g \<noteq> [] \<and> (\<forall>w\<in>set g. plain_word w) \<Longrightarrow>
   join sep (map (join sep) gs) = join sep (concat gs)"
proof (induction gs)
  case Nil
  then show ?case by simp
next
  case (Cons g gs)
  show ?case
  proof (cases "gs = []")
    case True
    then show ?thesis by simp
  next
    case False
    then have "concat gs \<noteq> []" using Cons.prems by (cases gs) auto
    moreover have "g \<noteq> []" using Cons.prems by simp
    ultimately show ?thesis using Cons False by (simp add: join_Cons join_append)
  qed
qed

lemma split_loop_groups:
  assumes "\<forall>w\<in>set ws. plain_word w" "\<forall>w\<in>set cur. plain_word w"
    and "split_loop ws cur sents = (S, C)"
  shows "\<exists>gs. S = sents @ map (join '' '') gs \<and> concat gs @ C = cur @ ws \<and>
              (\<forall>g\<in>set gs. g \<noteq> [] \<and> (\<forall>w\<in>set g. plain_word w))"
  using assms
proof (induction ws arbitrary: cur sents)
  case Nil
  then show ?case by (intro exI [of _ "[]"]) simp
next
  case (Cons w ws)
  let ?cur = "cur @ [w]"
  have plain: "\<forall>w\<in>set ?cur. plain_word w" "\<forall>w\<in>set ws. plain_word w"
    using Cons.prems by auto
  consider (keep) "split_loop ws ?cur sents = (S, C)"
    | (cut) "split_loop ws [] (sents @ [join '' '' ?cur]) = (S, C)"
    using Cons.prems(3) strip_join_plain [OF _ plain(1), of "'' ''"]
    by (auto simp: Let_def split: if_splits)
  then show ?case
  proof cases
    case keep
    from Cons.IH [OF plain(2) plain(1) keep] show ?thesis by simp
  next
    case cut
    from Cons.IH [OF plain(2) _ cut] obtain gs where
      gs: "S = (sents @ [join '' '' ?cur]) @ map (join '' '') gs" "concat gs @ C = [] @ ws"
          "\<forall>g\<in>set gs. g \<noteq> [] \<and> (\<forall>w\<in>set g. plain_word w)"
      by auto
    show ?thesis
      using gs plain(1) by (intro exI [of _ "?cur # gs"]) simp
  qed
qed

lemma split_into_sentences_groups:
  "\<exists>gs. split_into_sentences text = map (join '' '') gs \<and> concat gs = split text \<and>
        (\<forall>g\<in>set gs. g \<noteq> [] \<and> (\<forall>w\<in>set g. plain_word w))"
proof (cases "strip text = []")
  case blank: True
  then have "split text = []" by (simp add: strip_empty_iff split_def split_acc_empty_iff)
  with blank show ?thesis by (intro exI [of _ "[]"]) (simp add: split_into_sentences_def)
next
  case nonblank: False
  obtain S C where SC: "split_loop (split text) [] [] = (S, C)" by (cases "split_loop (split text) [] []")
  from split_loop_groups [OF _ _ SC] obtain gs where
    gs: "S = map (join '' '') gs" "concat gs @ C = split text"
        "\<forall>g\<in>set gs. g \<noteq> [] \<and> (\<forall>w\<in>set g. plain_word w)"
    using split_words by auto
  have C: "\<forall>w\<in>set C. plain_word w"
    using gs(2) split_words [of _ "text"] by (metis Un_iff set_append)
  show ?thesis
  proof (cases "C = []")
    case True
    with nonblank SC gs show ?thesis
      by (intro exI [of _ gs]) (simp add: split_into_sentences_def)
  next
    case ne: False
    with nonblank SC gs C strip_join_plain [OF ne C, of "'' ''"] show ?thesis
      by (intro exI [of _ "gs @ [C]"]) (simp add: split_into_sentences_def)
  qed
qed

text \<open>
  C10. For every input, no returned sentence is empty, the sentences joined by single
  spaces are the whitespace-normalised input \<open>" ".join(text.split())\<close>, and an empty or
  whitespace-only input gives the empty list.
\<close>

theorem segmenter_loses_no_text:
  "(\<forall>s\<in>set (split_into_sentences text). s \<noteq> []) \<and>
   join '' '' (split_into_sentences text) = join '' '' (split text) \<and>
   (list_all isspace text \<longrightarrow> split_into_sentences text = [])"
proof -
  obtain gs where gs: "split_into_sentences text = map (join '' '') gs" "concat gs = split text"
        "\<forall>g\<in>set gs. g \<noteq> [] \<and> (\<forall>w\<in>set g. plain_word w)"
    using split_into_sentences_groups by blast
  have "\<forall>s\<in>set (split_into_sentences text). s \<noteq> []"
    using gs(1,3) strip_join_plain(2) by auto
  moreover have "join '' '' (split_into_sentences text) = join '' '' (split text)"
    using gs join_groups [of gs "'' ''"] by simp
  moreover have "list_all isspace text \<longrightarrow> split_into_sentences text = []"
    by (simp add: split_into_sentences_def strip_empty_iff)
  ultimately show ?thesis by blast
qed

theorem segmenter_loses_no_text_witness:
  "list_all isspace [CHR '' '', CHR 0x09] \<and> split_into_sentences [CHR '' '', CHR 0x09] = [] \<and>
   [] \<notin> set (split_into_sentences ''Hi there.  Mr. X left.'') \<and>
   join '' '' (split_into_sentences ''Hi there.  Mr. X left.'') = ''Hi there. Mr. X left.''"
  using segmenter_loses_no_text [of "[CHR '' '', CHR 0x09]"]
        segmenter_loses_no_text [of "''Hi there.  Mr. X left.''"]
  by code_simp

section \<open>Provider exhaustion\<close>

lemma cancel_put_sentence [simp]: "cancel (put_sentence x p) = cancel p"
  by (simp add: put_sentence_def)

lemma cancel_emit_one [simp]: "cancel (emit_one sent p) = cancel p"
  by (simp add: emit_one_def)

lemma cancel_emit_fold [simp]: "cancel (foldl (\<lambda>q sent. emit_one sent q) p ss) = cancel p"
  by (induction ss arbitrary: p) simp_all

















section \<open>Cancellation\<close>

lemma player_step_quiet:
  assumes "cancel p" "not_playing (at pl)"
  shows "cancel (fst (player_step (p, pl))) \<and> not_playing (at (snd (player_step (p, pl)))) \<and>
         played (snd (player_step (p, pl))) = played pl"
  using assms by (cases "at pl") (auto split: list.splits option.splits)

lemma event_step_quiet:
  assumes "cancel (fst s)" "not_playing (at (snd s))"
  shows "cancel (fst (event_step e s)) \<and> not_playing (at (snd (event_step e s))) \<and>
         played (snd (event_step e s)) = played (snd s)"
proof (cases s)
  case (Pair p pl)
  show ?thesis
  proof (cases e)
    case Player
    then show ?thesis using assms player_step_quiet [of p pl] by (simp add: Pair)
  qed (use assms in \<open>simp_all add: Pair set_cancel_def drain_queues_def poison_queues_def
         put_audio_def put_sentence_def\<close>)
qed

lemma exec_quiet:
  "cancel (fst s) \<Longrightarrow> not_playing (at (snd s)) \<Longrightarrow>
   cancel (fst (exec es s)) \<and> not_playing (at (snd (exec es s))) \<and>
   played (snd (exec es s)) = played (snd s)"
proof (induction es arbitrary: s)
  case Nil
  then show ?case by (simp add: exec_def)
next
  case (Cons e es)
  have "exec (e # es) s = exec es (event_step e s)" by (simp add: exec_def)
  then show ?case
    using Cons.IH [of "event_step e s"] event_step_quiet [OF Cons.prems, of e] by simp
qed

lemma event_step_returned:
  "at (snd s) = Returned \<Longrightarrow>
   at (snd (event_step e s)) = Returned \<and> played (snd (event_step e s)) = played (snd s)"
  by (cases s; cases e) simp_all

lemma exec_returned:
  "at (snd s) = Returned \<Longrightarrow>
   at (snd (exec es s)) = Returned \<and> played (snd (exec es s)) = played (snd s)"
proof (induction es arbitrary: s)
  case Nil
  then show ?case by (simp add: exec_def)
next
  case (Cons e es)
  have "exec (e # es) s = exec es (event_step e s)" by (simp add: exec_def)
  then show ?case
    using Cons.IH [of "event_step e s"] event_step_returned [OF Cons.prems, of e] by simp
qed

lemma interrupt_as_events: "exec [Set_cancel, Drain, Poison] (p, pl) = (interrupt p, pl)"
  by (simp add: exec_def interrupt_def)

text \<open>
  C5. Once the flag is set and the playback thread reads it (at the head of its loop or
  after taking an item), the thread returns, and a returned thread plays nothing,
  whatever is still queued or put later. More generally, with the flag set, only a buffer
  that had already passed the check can still be played. \<open>interrupt\<close> is idempotent: a
  second call leaves the flag set and each queue holding just the end marker.
\<close>

theorem cancelled_playback_and_interrupt_idempotent:
  "(cancel p \<and> (at pl = At_head \<or> at pl = Got x) \<longrightarrow>
      at (snd (player_step (p, pl))) = Returned) \<and>
   (at pl = Returned \<longrightarrow>
      at (snd (exec es (p, pl))) = Returned \<and> played (snd (exec es (p, pl))) = played pl) \<and>
   (cancel p \<and> not_playing (at pl) \<longrightarrow> played (snd (exec es (p, pl))) = played pl) \<and>
   interrupt (interrupt p) = interrupt p \<and>
   cancel (interrupt p) \<and> sentence_queue (interrupt p) = [None] \<and>
   audio_queue (interrupt p) = [None]"
proof -
  have "cancel p \<and> (at pl = At_head \<or> at pl = Got x) \<longrightarrow>
      at (snd (player_step (p, pl))) = Returned"
    by (auto split: option.splits)
  moreover have "at pl = Returned \<longrightarrow>
      at (snd (exec es (p, pl))) = Returned \<and> played (snd (exec es (p, pl))) = played pl"
    using exec_returned [of "(p, pl)" es] by simp
  moreover have "cancel p \<and> not_playing (at pl) \<longrightarrow> played (snd (exec es (p, pl))) = played pl"
    using exec_quiet [of "(p, pl)" es] by simp
  moreover have "interrupt (interrupt p) = interrupt p"
    by (simp add: interrupt_def set_cancel_def drain_queues_def poison_queues_def
        put_audio_def put_sentence_def)
  moreover have "cancel (interrupt p) \<and> sentence_queue (interrupt p) = [None] \<and>
      audio_queue (interrupt p) = [None]"
    by (simp add: interrupt_def set_cancel_def drain_queues_def poison_queues_def
        put_audio_def put_sentence_def)
  ultimately show ?thesis by blast
qed

theorem cancelled_playback_and_interrupt_idempotent_witness:
  "cancel (fst cancelled_playback) \<and> at (snd cancelled_playback) = At_head \<and>
   not_playing (at (snd cancelled_playback)) \<and>
   at (snd (player_step cancelled_playback)) = Returned \<and>
   played (snd (exec [Player, Put (Some (Pcm ''three'')), Player, Player] cancelled_playback))
     = [''one''] \<and>
   at (snd returned_playback) = Returned \<and>
   played (snd (exec [Put (Some (Pcm ''three'')), Player, Player] returned_playback)) = [''one''] \<and>
   interrupt (interrupt idle_pipeline) = interrupt idle_pipeline"
  using cancelled_playback_and_interrupt_idempotent
          [where p = "fst cancelled_playback" and pl = "snd cancelled_playback"
             and es = "[Player, Put (Some (Pcm ''three'')), Player, Player]"]
        cancelled_playback_and_interrupt_idempotent
          [where p = "fst returned_playback" and pl = "snd returned_playback"
             and es = "[Put (Some (Pcm ''three'')), Player, Player]"]
        cancelled_playback_and_interrupt_idempotent [where p = idle_pipeline]
  by (simp add: cancelled_playback_def returned_playback_def idle_pipeline_def)

section \<open>Route detection\<close>

lemma replace_from_absent:
  "old \<noteq> [] \<Longrightarrow> hd old \<notin> set s \<Longrightarrow> replace_from old new 0 s = s"
proof (induction s)
  case Nil
  then show ?case by simp
next
  case (Cons c cs)
  then have "\<not> prefix old (c # cs)" by (cases old) auto
  with Cons show ?case by simp
qed

lemma replace_absent: "old \<noteq> [] \<Longrightarrow> hd old \<notin> set s \<Longrightarrow> replace old new s = s"
  by (simp add: replace_def replace_from_absent)

lemma sub_periods_absent: "CHR ''.'' \<notin> set s \<Longrightarrow> sub_periods s = s"
  by (induction s) auto

lemma sub_spaces_absent: "\<forall>c\<in>set s. \<not> isspace c \<Longrightarrow> sub_spaces s = s"
  by (induction s) auto

lemma strip_absent: "\<forall>c\<in>set s. \<not> isspace c \<Longrightarrow> strip s = s"
proof -
  assume a: "\<forall>c\<in>set s. \<not> isspace c"
  then have "dropWhile isspace (rev s) = rev s" by (cases "rev s") auto
  moreover have "dropWhile isspace s = s" using a by (cases s) auto
  ultimately show ?thesis by (simp add: strip_def)
qed

lemma isspace_newline: "isspace newline"
  by (simp add: isspace_def newline_def ord_def)

lemma format_for_speech_inert: "inert s \<Longrightarrow> format_for_speech s = s"
proof -
  assume "inert s"
  then have s: "\<forall>c\<in>set s. \<not> isspace c" "CHR ''*'' \<notin> set s" "CHR ''#'' \<notin> set s"
    "CHR 0x60 \<notin> set s" "CHR ''.'' \<notin> set s"
    by (auto simp: inert_def list_all_iff)
  then have "newline \<notin> set s" using isspace_newline by auto
  with s show ?thesis
    by (simp add: format_for_speech_def replace_absent sub_periods_absent sub_spaces_absent
        strip_absent)
qed

lemma split_acc_plain:
  "\<forall>c\<in>set s. \<not> isspace c \<Longrightarrow> split_acc cur s = (if cur @ s = [] then [] else [cur @ s])"
  by (induction s arbitrary: cur) auto

lemma split_into_sentences_inert:
  assumes "inert s"
  shows "length (split_into_sentences s) \<le> 1"
proof (cases "s = []")
  case True
  then show ?thesis by (simp add: split_into_sentences_def strip_def)
next
  case False
  from assms have ns: "\<forall>c\<in>set s. \<not> isspace c" by (auto simp: inert_def list_all_iff)
  have "last s \<in> set s" using False by simp
  with assms have "last s \<notin> set ''.!?''" by (auto simp: inert_def list_all_iff)
  moreover have "split s = [s]" using False ns by (simp add: split_def split_acc_plain)
  ultimately show ?thesis
    using False by (simp add: split_into_sentences_def Let_def strip_absent ns)
qed

lemma emit_sentences_inert: "inert s \<Longrightarrow> emit_sentences s p = (s, p)"
  using split_into_sentences_inert [of s]
  by (simp add: emit_sentences_def Let_def format_for_speech_inert)

lemma match_route_prefix_bracket:
  "match_route_prefix s = Some x \<Longrightarrow> CHR '']'' \<in> set s"
proof -
  assume "match_route_prefix s = Some x"
  then have "dropWhile is_word_or_dash (drop 7 s) \<noteq> []"
    "hd (dropWhile is_word_or_dash (drop 7 s)) = CHR '']''"
    by (auto simp: match_route_prefix_def Let_def split: if_splits)
  then have "CHR '']'' \<in> set (dropWhile is_word_or_dash (drop 7 s))"
    using hd_in_set by metis
  then show ?thesis by (meson in_set_dropD set_dropWhileD)
qed

lemma match_route_bracket: "match_route s = Some x \<Longrightarrow> CHR '']'' \<in> set s"
  unfolding match_route_def by (meson match_route_prefix_bracket set_dropWhileD)

lemma match_route_marker:
  "match_route (MARKER @ r) = Some (''deal-scanner'', dropWhile isspace r)"
  by (simp add: match_route_def match_route_prefix_def MARKER_def isspace_def ord_def
      is_word_or_dash_def isalnum_def Let_def)


lemma marker_split: "MARKER = MARKER_BODY @ '']''"
  by (simp add: MARKER_def MARKER_BODY_def)

lemma marker_body_facts:
  assumes "prefix b MARKER_BODY"
  shows "inert b" "CHR '']'' \<notin> set b" "length b \<le> 19"
proof -
  have "inert MARKER_BODY"
    by (simp add: inert_def MARKER_BODY_def isspace_def ord_def)
  moreover have "set b \<subseteq> set MARKER_BODY" using assms by (rule set_mono_prefix)
  ultimately show "inert b" by (auto simp: inert_def list_all_iff)
  have "CHR '']'' \<notin> set MARKER_BODY" by (simp add: MARKER_BODY_def)
  with \<open>set b \<subseteq> set MARKER_BODY\<close> show "CHR '']'' \<notin> set b" by auto
  have "length b \<le> length MARKER_BODY" using assms by (rule prefix_length_le)
  then show "length b \<le> 19" by (simp add: MARKER_BODY_def)
qed

lemma token_step_before_marker:
  assumes "prefix (b @ t) MARKER_BODY" "19 \<le> rdc"
  shows "token_step rdc t b False p = Continue (b @ t) False p"
proof -
  note f = marker_body_facts [OF assms(1)]
  have "match_route (b @ t) = None"
    using f(2) match_route_bracket [of "b @ t"] by (cases "match_route (b @ t)") auto
  then have "process_token_buffer rdc (b @ t) False p = (False, p)"
    by (simp add: process_token_buffer_def)
  moreover have "\<not> int (length (b @ t)) > rdc" using f(3) assms(2) by simp
  ultimately show ?thesis
    using emit_sentences_inert [OF f(1), of p] by (simp add: token_step_def Let_def)
qed

lemma ollama_loop_before_marker:
  assumes "prefix (b @ concat pre) MARKER_BODY" "19 \<le> rdc" "\<not> cancel p"
  shows "ollama_loop rdc (map (\<lambda>x. Data x False) pre @ ls) b False p
         = ollama_loop rdc ls (b @ concat pre) False p"
  using assms(1)
proof (induction pre arbitrary: b)
  case Nil
  then show ?case by simp
next
  case (Cons x pre)
  show ?case
  proof (cases "x = []")
    case True
    with Cons assms(3) show ?thesis by simp
  next
    case False
    have "prefix ((b @ x) @ concat pre) MARKER_BODY" using Cons.prems by simp
    moreover from this have "prefix (b @ x) MARKER_BODY" by (rule append_prefixD)
    ultimately show ?thesis
      using False assms(2,3) Cons.IH [of "b @ x"] token_step_before_marker [of b x rdc p]
      by simp
  qed
qed

lemma strip_Cons_space:
  assumes "isspace c"
  shows "strip (c # cs) = strip cs"
proof (cases "list_all isspace cs")
  case True
  then have "strip cs = []" "strip (c # cs) = []"
    using assms by (simp_all add: strip_empty_iff)
  then show ?thesis by (simp only:)
next
  case False
  then obtain x where "x \<in> set (rev cs)" "\<not> isspace x" by (auto simp: list_all_iff)
  then have "dropWhile isspace (rev cs @ [c]) = dropWhile isspace (rev cs) @ [c]"
    by (rule dropWhile_append1)
  then have "rev (dropWhile isspace (rev (c # cs))) = c # rev (dropWhile isspace (rev cs))"
    by (simp only: rev.simps rev_append rev_rev_ident append.simps)
  then show ?thesis using assms by (simp only: strip_def dropWhile.simps if_True)
qed

lemma strip_dropWhile: "strip (dropWhile isspace s) = strip s"
proof (induction s)
  case Nil
  show ?case by (simp only: dropWhile.simps)
next
  case (Cons c cs)
  show ?case
  proof (cases "isspace c")
    case True
    then show ?thesis using Cons strip_Cons_space [OF True, of cs]
      by (simp only: dropWhile.simps if_True)
  next
    case False
    then show ?thesis by (simp only: dropWhile.simps if_False)
  qed
qed

lemma ollama_loop_at_marker:
  assumes "prefix MARKER (b @ t)" "length b < length MARKER" "\<not> cancel p"
    and "int (length (b @ t)) \<le> rdc + 50"
  shows "ollama_loop rdc (Data t fin # ls) b False p =
          (True, p\<lparr>full_response := ''[ROUTE:deal-scanner] '' @ strip (drop 20 (b @ t)),
                   sentence_queue := sentence_queue p @
                     [Some (route_sentinel ''deal-scanner'' (strip (drop 20 (b @ t)))), None]\<rparr>)"
proof -
  from assms(1) obtain r where r: "b @ t = MARKER @ r" by (auto simp: prefix_def)
  then have d: "drop 20 (b @ t) = r" by (simp add: MARKER_def)
  have t: "t \<noteq> []" using assms(2) r by (cases t) (auto simp: MARKER_def)
  have "process_token_buffer rdc (b @ t) False p =
          (True, p\<lparr>full_response := ''[ROUTE:deal-scanner] '' @ strip r,
                   sentence_queue := sentence_queue p @
                     [Some (route_sentinel ''deal-scanner'' (strip r)), None]\<rparr>)"
    using assms(4) match_route_marker [of r]
    by (simp add: process_token_buffer_def r Let_def strip_dropWhile put_sentence_def)
  then have "token_step rdc t b False p =
          Routed (p\<lparr>full_response := ''[ROUTE:deal-scanner] '' @ strip r,
                   sentence_queue := sentence_queue p @
                     [Some (route_sentinel ''deal-scanner'' (strip r)), None]\<rparr>)"
    by (simp add: token_step_def Let_def)
  then show ?thesis using t assms(3) unfolding d by simp
qed

text \<open>
  When route detection fires. Let the fragments \<open>pre\<close> stop short of the closing
  bracket of the marker \<open>[ROUTE:deal-scanner]\<close>, let the fragment \<open>t\<close> complete it, and
  let the buffer then hold at most \<open>ROUTE_DETECTION_CHARS + 50\<close> characters (with
  \<open>ROUTE_DETECTION_CHARS \<ge> 19\<close>, 50 by default). Then the attempt succeeds at \<open>t\<close>
  without reading the lines after it: the agent is \<open>deal-scanner\<close>, the sentence queue
  receives exactly the routing sentinel and the end marker, no ordinary sentence before
  them, and the refined query is the stripped text that has arrived after the marker by
  then. It is the whole query only when the rest of the reply is in the fragment that
  completes the marker.
\<close>

lemma route_detected_when_marker_completes:
  "\<not> cancel p \<and> 19 \<le> rdc \<and> length (concat pre) < length MARKER \<and>
   prefix MARKER (concat pre @ t) \<and> int (length (concat pre @ t)) \<le> rdc + 50 \<longrightarrow>
   try_ollama_stream rdc (Streaming (map (\<lambda>x. Data x False) pre @ Data t fin # ls)) p =
     (True, p\<lparr>full_response := ''[ROUTE:deal-scanner] '' @ strip (drop 20 (concat pre @ t)),
              sentence_queue := sentence_queue p @
                [Some (route_sentinel ''deal-scanner'' (strip (drop 20 (concat pre @ t)))),
                 None]\<rparr>)"
proof (intro impI, elim conjE)
  assume a: "\<not> cancel p" "19 \<le> rdc" "length (concat pre) < length MARKER"
    "prefix MARKER (concat pre @ t)" "int (length (concat pre @ t)) \<le> rdc + 50"
  have "take (length (concat pre)) MARKER = concat pre"
    using a(3,4) by (auto simp: prefix_def append_eq_append_conv_if split: if_splits)
  moreover have "length MARKER = 20" "length MARKER_BODY = 19"
    by (simp_all add: MARKER_def MARKER_BODY_def)
  then have "take (length (concat pre)) MARKER = take (length (concat pre)) MARKER_BODY"
    using a(3) by (simp add: marker_split)
  then have "prefix (take (length (concat pre)) MARKER) MARKER_BODY"
    by (simp add: take_is_prefix)
  ultimately have "prefix ([] @ concat pre) MARKER_BODY" by simp
  then have "ollama_loop rdc (map (\<lambda>x. Data x False) pre @ Data t fin # ls) [] False p
      = ollama_loop rdc (Data t fin # ls) ([] @ concat pre) False p"
    using a(2,1) by (rule ollama_loop_before_marker)
  then show "try_ollama_stream rdc (Streaming (map (\<lambda>x. Data x False) pre @ Data t fin # ls)) p =
     (True, p\<lparr>full_response := ''[ROUTE:deal-scanner] '' @ strip (drop 20 (concat pre @ t)),
              sentence_queue := sentence_queue p @
                [Some (route_sentinel ''deal-scanner'' (strip (drop 20 (concat pre @ t)))),
                 None]\<rparr>)"
    using ollama_loop_at_marker [OF a(4,3,1,5), of fin ls]
    by (simp add: try_ollama_stream_def)
qed

lemma route_detected_when_marker_completes_example:
  "\<not> cancel idle_pipeline \<and> (19::int) \<le> 50 \<and>
   length (concat [''[ROUTE:'', ''deal-scan'']) < length MARKER \<and>
   prefix MARKER (concat [''[ROUTE:'', ''deal-scan''] @ ''ner] find me'') \<and>
   try_ollama_stream 50
     (Streaming [Data ''[ROUTE:'' False, Data ''deal-scan'' False, Data ''ner] find me'' False,
                 Data '' a laundromat'' False]) idle_pipeline =
     (True, idle_pipeline\<lparr>full_response := ''[ROUTE:deal-scanner] find me'',
        sentence_queue := [Some ''__ROUTE__:deal-scanner:find me'', None]\<rparr>) \<and>
   try_ollama_stream 50 (Streaming [Data ROUTED_REPLY False, Data '' near me'' False])
     idle_pipeline =
     (True, idle_pipeline\<lparr>full_response := ROUTED_REPLY,
        sentence_queue := [Some ''__ROUTE__:deal-scanner:find me a laundromat'', None]\<rparr>)"
proof -
  have s1: "strip (drop 20 (concat [''[ROUTE:'', ''deal-scan''] @ ''ner] find me'')) = ''find me''"
    by code_simp
  have s2: "strip (drop 20 (concat [] @ ROUTED_REPLY)) = ''find me a laundromat''"
    by code_simp
  have h: "\<not> cancel idle_pipeline" "sentence_queue idle_pipeline = []"
    by (simp_all add: idle_pipeline_def)
  show ?thesis
    using route_detected_when_marker_completes [where p = idle_pipeline and rdc = 50
            and pre = "[''[ROUTE:'', ''deal-scan'']" and t = "''ner] find me''" and fin = False
            and ls = "[Data '' a laundromat'' False]"]
          route_detected_when_marker_completes [where p = idle_pipeline and rdc = 50
            and pre = "[]" and t = ROUTED_REPLY and fin = False
            and ls = "[Data '' near me'' False]"]
    unfolding s1 s2
    by (simp add: h MARKER_def ROUTED_REPLY_def route_sentinel_def)
qed

text \<open>
  C4. For the streamed reply beginning \<open>"[ROUTE:deal-scanner] find me a laundromat"\<close>,
  route detection should parse the agent \<open>deal-scanner\<close> and the refined query
  \<open>find me a laundromat\<close>, emit one routing sentinel and the end marker, and stop. The
  pattern captures the rest of the reply as the refined query, but the check runs on every
  token and returns at the first one that contains the closing bracket: streamed as
  \<open>"[ROUTE:deal-scanner] find"\<close> and \<open>" me a laundromat"\<close>, the reply gives the
  sentinel and the response the refined query \<open>find\<close>, and that is the message the
  specialist agent is sent.
\<close>

theorem fragmented_route_reply_cuts_query:
  "sentence_queue (run fragmented_world idle_pipeline)
     = [Some ''__ROUTE__:deal-scanner:find'', None] \<and>
   sentence_queue (run fragmented_world idle_pipeline)
     \<noteq> [Some ''__ROUTE__:deal-scanner:find me a laundromat'', None] \<and>
   full_response (run fragmented_world idle_pipeline) = ''[ROUTE:deal-scanner] find'' \<and>
   turns (fst (handle_turn fragmented_world ''any laundromats for sale''
                 (empty_memory 20, idle_pipeline)))
     = [\<lparr>role = ''user'', content = ''any laundromats for sale''\<rparr>,
        \<lparr>role = ''assistant'', content = ''[Routed to Deal Scanner] find''\<rparr>]"
  by code_simp

lemma token_step_closed:
  "token_step rdc t b True p =
     (case emit_sentences (b @ t) p of (b2, p2) \<Rightarrow> Continue b2 True p2)"
  by (simp add: token_step_def process_token_buffer_def Let_def)

lemma ollama_loop_closed: "ollama_loop rdc ls b True p = plain_ollama_loop ls b p"
proof (induction ls arbitrary: b p)
  case Nil
  show ?case by simp
next
  case (Cons l ls)
  show ?case
  proof (cases l)
    case (Data t fin)
    then show ?thesis
      using Cons by (auto simp: token_step_closed split: prod.splits)
  qed (use Cons in simp_all)
qed

lemma cloud_loop_closed: "cloud_loop rdc ls b True p = plain_cloud_loop ls b p"
proof (induction ls arbitrary: b p)
  case Nil
  show ?case by simp
next
  case (Cons l ls)
  show ?case
  proof (cases l)
    case (Data t fin)
    then show ?thesis
      using Cons by (auto simp: token_step_closed split: prod.splits)
  qed (use Cons in simp_all)
qed

lemma token_step_routed:
  "token_step rdc t b d p = Routed p1 \<Longrightarrow> \<not> d \<and> int (length (b @ t)) \<le> rdc + 50"
  by (auto simp: token_step_def process_token_buffer_def Let_def
      split: if_splits option.splits prod.splits bool.splits)

lemma token_step_closes:
  "token_step rdc t b d p = Continue b2 d2 p2 \<Longrightarrow> d \<or> rdc < int (length (b @ t)) \<Longrightarrow> d2"
  by (auto simp: token_step_def Let_def split: if_splits prod.splits bool.splits)

text \<open>
  C7. As specified, once the buffer exceeds the window without a match, route detection is
  disabled for the remainder of the run, so a later marker is never emitted as a routing
  sentinel. The flag is a local variable of each provider attempt: here the local
  provider exceeds the window (the flag closes, one ordinary sentence is emitted) and
  then times out, and the marker in the reply of the fallback provider is emitted as a
  routing sentinel in the same run.
\<close>

theorem failover_reopens_route_detection:
  "token_step 50 LONG_OPENING [] False (reset idle_pipeline) =
     Continue ''Then'' True ((reset idle_pipeline)\<lparr>
       sentence_queue := [Some ''I think the best option here is to look at the listings.''],
       full_response := ''I think the best option here is to look at the listings. ''\<rparr>) \<and>
   sentence_queue (run failover_world idle_pipeline) =
     [Some ''I think the best option here is to look at the listings.'',
      Some ''__ROUTE__:deal-scanner:find me a laundromat'', None]"
  by code_simp

text \<open>
  C7, as the code has it, for the stream of one provider attempt. A route is detected
  only while the flag is open and the buffer holds at most \<open>ROUTE_DETECTION_CHARS + 50\<close>
  characters; a token that leaves the buffer longer than \<open>ROUTE_DETECTION_CHARS\<close>
  without a match closes the flag, and a closed flag stays closed; with the flag closed
  both loops are the loops without route detection, so a marker in later text is
  ordinary sentence text.
\<close>

theorem route_detection_window:
  "(token_step rdc t b d p = Routed p1 \<longrightarrow> \<not> d \<and> int (length (b @ t)) \<le> rdc + 50) \<and>
   (token_step rdc t b d p = Continue b2 d2 p2 \<and> (d \<or> rdc < int (length (b @ t))) \<longrightarrow> d2) \<and>
   ollama_loop rdc ls b True p = plain_ollama_loop ls b p \<and>
   cloud_loop rdc ls b True p = plain_cloud_loop ls b p"
  using token_step_routed [of rdc t b d p p1] token_step_closes [of rdc t b d p b2 d2 p2]
    ollama_loop_closed [of rdc ls b p] cloud_loop_closed [of rdc ls b p]
  by blast

theorem route_detection_window_witness:
  "token_step 50 ROUTED_REPLY [] False idle_pipeline =
     Routed (idle_pipeline\<lparr>full_response := ROUTED_REPLY,
       sentence_queue := [Some ''__ROUTE__:deal-scanner:find me a laundromat'', None]\<rparr>) \<and>
   int (length ([] @ ROUTED_REPLY)) \<le> 50 + 50 \<and>
   token_step 50 LONG_OPENING [] False idle_pipeline =
     Continue ''Then'' True (idle_pipeline\<lparr>
       sentence_queue := [Some ''I think the best option here is to look at the listings.''],
       full_response := ''I think the best option here is to look at the listings. ''\<rparr>) \<and>
   50 < int (length ([] @ LONG_OPENING)) \<and>
   ollama_loop 50 [Data ROUTED_REPLY True] ''Then'' True idle_pipeline =
     (True, idle_pipeline\<lparr>
       sentence_queue := [Some ''Then[ROUTE:deal-scanner] find me a laundromat'', None],
       full_response := ''Then[ROUTE:deal-scanner] find me a laundromat''\<rparr>)"
proof -
  have r: "token_step 50 ROUTED_REPLY [] False idle_pipeline =
     Routed (idle_pipeline\<lparr>full_response := ROUTED_REPLY,
       sentence_queue := [Some ''__ROUTE__:deal-scanner:find me a laundromat'', None]\<rparr>)"
    by code_simp
  have c: "token_step 50 LONG_OPENING [] False idle_pipeline =
     Continue ''Then'' True (idle_pipeline\<lparr>
       sentence_queue := [Some ''I think the best option here is to look at the listings.''],
       full_response := ''I think the best option here is to look at the listings. ''\<rparr>)"
    by code_simp
  have l: "50 < int (length ([] @ LONG_OPENING))" by (simp add: LONG_OPENING_def)
  have o: "plain_ollama_loop [Data ROUTED_REPLY True] ''Then'' idle_pipeline =
     (True, idle_pipeline\<lparr>
       sentence_queue := [Some ''Then[ROUTE:deal-scanner] find me a laundromat'', None],
       full_response := ''Then[ROUTE:deal-scanner] find me a laundromat''\<rparr>)"
    by code_simp
  let ?p1 = "idle_pipeline\<lparr>full_response := ROUTED_REPLY,
       sentence_queue := [Some ''__ROUTE__:deal-scanner:find me a laundromat'', None]\<rparr>"
  let ?p2 = "idle_pipeline\<lparr>
       sentence_queue := [Some ''I think the best option here is to look at the listings.''],
       full_response := ''I think the best option here is to look at the listings. ''\<rparr>"
  show ?thesis
    using route_detection_window [where rdc = 50 and t = ROUTED_REPLY and b = "[]" and d = False
            and p = idle_pipeline and ?p1.0 = ?p1]
          route_detection_window [where rdc = 50 and t = LONG_OPENING and b = "[]" and d = False
            and p = idle_pipeline and ?b2.0 = "''Then''" and ?d2.0 = True and ?p2.0 = ?p2]
          route_detection_window [where rdc = 50 and b = "''Then''" and p = idle_pipeline
            and ls = "[Data ROUTED_REPLY True]"]
          r c l o
    by simp
qed

end
